theory Spec2Isabelle
  imports Main "HOL-Library.AList" "HOL-Library.Sublist"
begin

section \<open>The allow-list of pinned action references (gateway.py)\<close>

text \<open>
  The module keeps a two-level dictionary: action name, then reference, then the details
  of that reference. Python dictionaries iterate in insertion order, assigning to a key
  that is present keeps its position, assigning to a new key appends it, and deleting a
  key keeps the order of the others. The model is an association list:
  \<^const>\<open>AList.update\<close> is the assignment \<open>d[k] = v\<close>, \<^const>\<open>AList.delete\<close> is
  \<open>del d[k]\<close> on a key that is present (a missing key is the branch \<open>KeyError\<close> of the
  caller), \<^const>\<open>map_of\<close> is the lookup, and \<open>fst ` set d\<close> is the set of keys.

  A date is its proleptic Gregorian ordinal (\<open>date.toordinal()\<close>), so that comparing two
  dates and adding a \<open>timedelta\<close> are comparison and addition of integers. The clock
  (\<open>date.today()\<close>) is the parameter \<open>today\<close> of every operation that reads it; one call
  of an operation sees one value of it. The model leaves out the upper end of Python's
  calendar (year 9999), where the addition would overflow.

  The dictionaries are trees of values: no two names share one group object and no two
  references share one details object.
\<close>

subsection \<open>Data model\<close>

type_synonym date = int

record RefDetails =
  expires_at :: date
  keep :: "bool option"

type_synonym ActionRefs = "(string \<times> RefDetails) list"

type_synonym ActionsYAML = "(string \<times> ActionRefs) list"

type_synonym step = "(string \<times> string) list"

datatype error = KeyError | ValueError

text \<open>\<open>details.get("keep")\<close> used as a condition: an absent key gives \<open>None\<close>, which is false.\<close>

fun truthy :: "bool option \<Rightarrow> bool" where
  "truthy None = False"
| "truthy (Some b) = b"

text \<open>\<open>date(2100, 1, 1)\<close> as an ordinal: 2099 years of 365 days, 509 leap days, plus one.\<close>

definition date_2100_1_1 :: date where
  "date_2100_1_1 = 2099 * 365 + (2099 div 4 - 2099 div 100 + 2099 div 400) + 1"

text \<open>Well-formed dictionaries have each key once, at both levels.\<close>

definition wf_refs :: "ActionRefs \<Rightarrow> bool" where
  "wf_refs refs = distinct (map fst refs)"

definition wf_actions :: "ActionsYAML \<Rightarrow> bool" where
  "wf_actions actions = (distinct (map fst actions) \<and> list_all (\<lambda>(name, refs). wf_refs refs) actions)"

text \<open>The (name, reference, details) triples of a store in its iteration order.\<close>

definition entries :: "ActionsYAML \<Rightarrow> (string \<times> string \<times> RefDetails) list" where
  "entries actions = concat (map (\<lambda>(name, refs). map (\<lambda>(ref, details). (name, ref, details)) refs) actions)"

subsection \<open>calculate_expiry\<close>

definition calculate_expiry :: "date \<Rightarrow> int \<Rightarrow> date" where
  "calculate_expiry today weeks = today + 7 * weeks"

subsection \<open>generate_workflow\<close>

definition header :: string where
  "header =
     ''name: Dummy Workflow'' @ [CHR 0x0A] @
     [CHR 0x0A] @
     ''on:'' @ [CHR 0x0A] @
     ''  workflow_dispatch:'' @ [CHR 0x0A] @
     [CHR 0x0A] @
     ''jobs:'' @ [CHR 0x0A] @
     ''  dummy:'' @ [CHR 0x0A] @
     ''    if: false'' @ [CHR 0x0A] @
     ''    runs-on: ubuntu-latest'' @ [CHR 0x0A] @
     ''    steps:'' @ [CHR 0x0A]"

text \<open>\<open>sep.join(xs)\<close>.\<close>

fun join :: "string \<Rightarrow> string list \<Rightarrow> string" where
  "join sep [] = []"
| "join sep [x] = x"
| "join sep (x # y # ys) = x @ sep @ join sep (y # ys)"

definition generate_workflow :: "date \<Rightarrow> ActionsYAML \<Rightarrow> string" where
  "generate_workflow today actions =
     (let steps =
        [''      - uses: '' @ name @ ''@'' @ ref.
           (name, refs) \<leftarrow> actions,
           (ref, details) \<leftarrow> refs,
           expires_at details > calculate_expiry today 4 \<and> \<not> truthy (keep details)]
      in header @ join [CHR 0x0A] steps)"

subsection \<open>update_refs\<close>

text \<open>\<open>s.split(c)\<close> for a separator of one character.\<close>

fun split :: "char \<Rightarrow> string \<Rightarrow> string list" where
  "split c [] = [[]]"
| "split c (x # xs) =
     (if x = c then [] # split c xs
      else (case split c xs of
              [] \<Rightarrow> [[x]]
            | w # ws \<Rightarrow> (x # w) # ws))"

text \<open>
  One round of the loop. The tuple assignment \<open>name, new_ref = ...\<close> raises ValueError
  unless the split has exactly two parts; \<open>step["uses"]\<close> raises KeyError without the key.
\<close>

definition update_step :: "date \<Rightarrow> step \<Rightarrow> ActionsYAML \<Rightarrow> error + ActionsYAML" where
  "update_step today step action_refs =
     (case map_of step ''uses'' of
        None \<Rightarrow> Inl KeyError
      | Some uses \<Rightarrow>
         (case split CHR ''@'' uses of
            [name, new_ref] \<Rightarrow>
              (let action_refs1 =
                     (if name \<notin> fst ` set action_refs
                      then AList.update name [] action_refs else action_refs)
               in case map_of action_refs1 name of
                    None \<Rightarrow> Inl KeyError
                  | Some refs \<Rightarrow>
                      if new_ref \<notin> fst ` set refs then
                        (let refs1 = map (\<lambda>(r, details).
                                       (r, details\<lparr>expires_at := calculate_expiry today 12\<rparr>)) refs;
                             refs2 = AList.update new_ref
                                       \<lparr>expires_at = date_2100_1_1, keep = Some False\<rparr> refs1
                         in Inr (AList.update name refs2 action_refs1))
                      else Inr action_refs1)
          | _ \<Rightarrow> Inl ValueError))"

fun update_refs :: "date \<Rightarrow> step list \<Rightarrow> ActionsYAML \<Rightarrow> error + ActionsYAML" where
  "update_refs today [] action_refs = Inr action_refs"
| "update_refs today (step # dummy_steps) action_refs =
     (case update_step today step action_refs of
        Inl e \<Rightarrow> Inl e
      | Inr action_refs' \<Rightarrow> update_refs today dummy_steps action_refs')"

subsection \<open>create_pattern\<close>

definition create_pattern :: "date \<Rightarrow> ActionsYAML \<Rightarrow> string list" where
  "create_pattern today actions =
     [name @ ''@'' @ ref.
        (name, refs) \<leftarrow> actions,
        (ref, details) \<leftarrow> refs,
        today < expires_at details \<or> truthy (keep details)]"

subsection \<open>remove_expired_refs\<close>

text \<open>The first loop: the pairs to remove, name by name.\<close>

definition refs_to_remove :: "date \<Rightarrow> ActionsYAML \<Rightarrow> (string \<times> string) list" where
  "refs_to_remove today actions =
     concat (map (\<lambda>(name, action).
        [(name, ref). (ref, details) \<leftarrow> action,
           expires_at details \<le> today \<and> \<not> truthy (keep details)]) actions)"

text \<open>
  The second loop. \<open>del actions[name][ref]\<close> raises KeyError when the name or the
  reference is not there; a group that the deletion has emptied takes its name with it.
\<close>

fun delete_refs :: "(string \<times> string) list \<Rightarrow> ActionsYAML \<Rightarrow> error + ActionsYAML" where
  "delete_refs [] actions = Inr actions"
| "delete_refs ((name, ref) # rest) actions =
     (case map_of actions name of
        None \<Rightarrow> Inl KeyError
      | Some action \<Rightarrow>
          if ref \<notin> fst ` set action then Inl KeyError
          else (let action' = AList.delete ref action
                in if action' = [] then delete_refs rest (AList.delete name actions)
                   else delete_refs rest (AList.update name action' actions)))"

definition remove_expired_refs :: "date \<Rightarrow> ActionsYAML \<Rightarrow> error + ActionsYAML" where
  "remove_expired_refs today actions = delete_refs (refs_to_remove today actions) actions"


subsection \<open>Auxiliary notions for the statements\<close>

text \<open>The reference is a key of the group of the name.\<close>

definition has_ref :: "ActionsYAML \<Rightarrow> string \<Rightarrow> string \<Rightarrow> bool" where
  "has_ref actions name ref =
     (case map_of actions name of None \<Rightarrow> False | Some refs \<Rightarrow> ref \<in> fst ` set refs)"

text \<open>The pair that a step names is in the store.\<close>

definition step_present :: "step \<Rightarrow> ActionsYAML \<Rightarrow> bool" where
  "step_present step actions =
     (case map_of step ''uses'' of
        None \<Rightarrow> False
      | Some uses \<Rightarrow> (case split CHR ''@'' uses of
                        [name, ref] \<Rightarrow> has_ref actions name ref
                      | _ \<Rightarrow> False))"


text \<open>
  The split as the specification words it, on the last separator: the name is everything
  before the last \<open>c\<close>, the reference everything after it.
\<close>

definition spec_split_last :: "char \<Rightarrow> string \<Rightarrow> (string \<times> string) option" where
  "spec_split_last c s =
     (if c \<in> set s
      then Some (rev (tl (dropWhile (\<lambda>x. x \<noteq> c) (rev s))), rev (takeWhile (\<lambda>x. x \<noteq> c) (rev s)))
      else None)"

text \<open>
  The condition of the pruner in the words of the specification: the expiry date has
  been reached and \<open>keep\<close> is not true.
\<close>

definition expired :: "date \<Rightarrow> RefDetails \<Rightarrow> bool" where
  "expired today details = (expires_at details \<le> today \<and> keep details \<noteq> Some True)"

text \<open>
  The store that the specification describes for the pruner: every group loses its expired
  references, and a name whose group has become empty by that goes with it (a group that
  was empty before stays).
\<close>

definition spec_remove_expired :: "date \<Rightarrow> ActionsYAML \<Rightarrow> ActionsYAML" where
  "spec_remove_expired today actions =
     concat (map (\<lambda>(name, refs).
        (let refs' = filter (\<lambda>(ref, details). \<not> expired today details) refs
         in if refs \<noteq> [] \<and> refs' = [] then [] else [(name, refs')])) actions)"


section \<open>Properties\<close>

subsection \<open>Comprehensions over the store\<close>

lemma truthy_iff: "truthy k \<longleftrightarrow> k = Some True"
  by (cases k) auto

lemma comprehension_entries:
  "concat (map (\<lambda>(name, refs).
       concat (map (\<lambda>(ref, details). if P details then [f name ref] else []) refs)) actions) =
   map (\<lambda>(name, ref, details). f name ref)
     (filter (\<lambda>(name, ref, details). P details) (entries actions))"
proof (induction actions)
  case Nil
  show ?case by (simp add: entries_def)
next
  case (Cons a actions)
  obtain name refs where a: "a = (name, refs)" by (cases a)
  have "concat (map (\<lambda>(ref, details). if P details then [f name ref] else []) refs) =
     map (\<lambda>(name, ref, details). f name ref)
       (filter (\<lambda>(name, ref, details). P details)
          (map (\<lambda>(ref, details). (name, ref, details)) refs))"
    by (induction refs) auto
  with Cons show ?case by (simp add: a entries_def)
qed

lemma generate_workflow_entries:
  "generate_workflow today actions =
     header @ join [CHR 0x0A]
       (map (\<lambda>(name, ref, details). ''      - uses: '' @ name @ ''@'' @ ref)
         (filter (\<lambda>(name, ref, details). today + 28 < expires_at details \<and> keep details \<noteq> Some True)
            (entries actions)))"
  unfolding generate_workflow_def Let_def calculate_expiry_def
  using comprehension_entries
    [of "\<lambda>d. today + 7 * 4 < expires_at d \<and> \<not> truthy (keep d)"
        "\<lambda>name ref. ''      - uses: '' @ name @ ''@'' @ ref" actions]
  by (simp add: truthy_iff)

lemma create_pattern_entries:
  "create_pattern today actions =
     map (\<lambda>(name, ref, details). name @ ''@'' @ ref)
       (filter (\<lambda>(name, ref, details). today < expires_at details \<or> keep details = Some True)
          (entries actions))"
  unfolding create_pattern_def
  using comprehension_entries
    [of "\<lambda>d. today < expires_at d \<or> truthy (keep d)" "\<lambda>name ref. name @ ''@'' @ ref" actions]
  by (simp add: truthy_iff)

subsection \<open>The workflow synthesizer\<close>

text \<open>
  Claim C3. For every store, \<open>generate_workflow\<close> returns the fixed header followed by the
  step lines \<open>"      - uses: name@reference"\<close>, joined by newlines, of exactly those
  entries whose \<open>expires_at\<close> is strictly later than today plus 4 weeks (28 days) and whose
  \<open>keep\<close> is not true, in the iteration order of the store. An entry that expires exactly
  4 weeks from today is left out, one that expires a day later is listed, and an entry with
  \<open>keep = True\<close> is left out whatever its expiry.
\<close>

theorem generate_workflow_selects:
  "generate_workflow today actions =
     header @ join [CHR 0x0A]
       (map (\<lambda>(name, ref, details). ''      - uses: '' @ name @ ''@'' @ ref)
         (filter (\<lambda>(name, ref, details). today + 28 < expires_at details \<and> keep details \<noteq> Some True)
            (entries actions)))
   \<and> generate_workflow today [(name, [(ref, \<lparr>expires_at = today + 28, keep = k\<rparr>)])] = header
   \<and> (k \<noteq> Some True \<longrightarrow>
       generate_workflow today [(name, [(ref, \<lparr>expires_at = today + 28 + 1, keep = k\<rparr>)])] =
         header @ ''      - uses: '' @ name @ ''@'' @ ref)
   \<and> generate_workflow today [(name, [(ref, \<lparr>expires_at = e, keep = Some True\<rparr>)])] = header"
proof (intro conjI impI)
  show "generate_workflow today actions =
     header @ join [CHR 0x0A]
       (map (\<lambda>(name, ref, details). ''      - uses: '' @ name @ ''@'' @ ref)
         (filter (\<lambda>(name, ref, details). today + 28 < expires_at details \<and> keep details \<noteq> Some True)
            (entries actions)))"
    by (rule generate_workflow_entries)
  show "generate_workflow today [(name, [(ref, \<lparr>expires_at = today + 28, keep = k\<rparr>)])] = header"
    by (simp add: generate_workflow_entries entries_def)
  show "generate_workflow today [(name, [(ref, \<lparr>expires_at = e, keep = Some True\<rparr>)])] = header"
    by (simp add: generate_workflow_entries entries_def)
  assume "k \<noteq> Some True"
  then show "generate_workflow today [(name, [(ref, \<lparr>expires_at = today + 28 + 1, keep = k\<rparr>)])] =
     header @ ''      - uses: '' @ name @ ''@'' @ ref"
    by (simp add: generate_workflow_entries entries_def)
qed

theorem generate_workflow_selects_witness:
  "generate_workflow 739000
     [(''o/r'', [(''v1'', \<lparr>expires_at = 739028, keep = None\<rparr>),
                 (''v2'', \<lparr>expires_at = 739029, keep = None\<rparr>),
                 (''v3'', \<lparr>expires_at = 739400, keep = Some True\<rparr>)]),
      (''p/q'', [(''v9'', \<lparr>expires_at = 739100, keep = Some False\<rparr>)])] =
     header @ ''      - uses: o/r@v2'' @ [CHR 0x0A] @ ''      - uses: p/q@v9''
   \<and> generate_workflow 739000 [(''o/r'', [(''v2'', \<lparr>expires_at = 739029, keep = None\<rparr>)])] =
     header @ ''      - uses: o/r@v2''"
  using generate_workflow_selects [of 739000
     "[(''o/r'', [(''v1'', \<lparr>expires_at = 739028, keep = None\<rparr>),
                 (''v2'', \<lparr>expires_at = 739029, keep = None\<rparr>),
                 (''v3'', \<lparr>expires_at = 739400, keep = Some True\<rparr>)]),
      (''p/q'', [(''v9'', \<lparr>expires_at = 739100, keep = Some False\<rparr>)])]"
     "''o/r''" "''v2''" None 0]
  by (simp add: entries_def)

subsection \<open>The pattern generator\<close>

text \<open>
  Claim C4. For every store, \<open>create_pattern\<close> returns the strings \<open>"name@reference"\<close> of
  exactly those entries for which today is strictly before \<open>expires_at\<close> or \<open>keep\<close> is
  true, in the iteration order of the store. An entry with \<open>expires_at\<close> equal to today
  is listed only when it has \<open>keep = True\<close>; an entry that expires tomorrow is listed.
\<close>

theorem create_pattern_selects:
  "create_pattern today actions =
     map (\<lambda>(name, ref, details). name @ ''@'' @ ref)
       (filter (\<lambda>(name, ref, details). today < expires_at details \<or> keep details = Some True)
          (entries actions))
   \<and> (k \<noteq> Some True \<longrightarrow>
        create_pattern today [(name, [(ref, \<lparr>expires_at = today, keep = k\<rparr>)])] = [])
   \<and> create_pattern today [(name, [(ref, \<lparr>expires_at = today, keep = Some True\<rparr>)])] =
        [name @ ''@'' @ ref]
   \<and> create_pattern today [(name, [(ref, \<lparr>expires_at = today + 1, keep = k\<rparr>)])] =
        [name @ ''@'' @ ref]"
proof (intro conjI impI)
  show "create_pattern today actions =
     map (\<lambda>(name, ref, details). name @ ''@'' @ ref)
       (filter (\<lambda>(name, ref, details). today < expires_at details \<or> keep details = Some True)
          (entries actions))"
    by (rule create_pattern_entries)
  show "create_pattern today [(name, [(ref, \<lparr>expires_at = today, keep = Some True\<rparr>)])] =
        [name @ ''@'' @ ref]"
    by (simp add: create_pattern_entries entries_def)
  show "create_pattern today [(name, [(ref, \<lparr>expires_at = today + 1, keep = k\<rparr>)])] =
        [name @ ''@'' @ ref]"
    by (simp add: create_pattern_entries entries_def)
  assume "k \<noteq> Some True"
  then show "create_pattern today [(name, [(ref, \<lparr>expires_at = today, keep = k\<rparr>)])] = []"
    by (simp add: create_pattern_entries entries_def)
qed

theorem create_pattern_selects_witness:
  "create_pattern 739000
     [(''o/r'', [(''v1'', \<lparr>expires_at = 739000, keep = None\<rparr>),
                 (''v2'', \<lparr>expires_at = 739001, keep = None\<rparr>),
                 (''v3'', \<lparr>expires_at = 738000, keep = Some True\<rparr>)]),
      (''p/q'', [(''v9'', \<lparr>expires_at = 739100, keep = Some False\<rparr>)])] =
     [''o/r@v2'', ''o/r@v3'', ''p/q@v9'']
   \<and> create_pattern 739000 [(''o/r'', [(''v1'', \<lparr>expires_at = 739000, keep = Some False\<rparr>)])] = []"
  using create_pattern_selects [of 739000
     "[(''o/r'', [(''v1'', \<lparr>expires_at = 739000, keep = None\<rparr>),
                 (''v2'', \<lparr>expires_at = 739001, keep = None\<rparr>),
                 (''v3'', \<lparr>expires_at = 738000, keep = Some True\<rparr>)]),
      (''p/q'', [(''v9'', \<lparr>expires_at = 739100, keep = Some False\<rparr>)])]"
     "Some False" "''o/r''" "''v1''"]
  by (simp add: entries_def)

subsection \<open>A store with nothing to list\<close>

text \<open>
  Claim C9. For every store in which no entry satisfies the synthesizer's condition
  (\<open>expires_at\<close> later than \<open>calculate_expiry\<close> of 4 weeks, and \<open>keep\<close> not true), the
  empty store among them, \<open>generate_workflow\<close> returns exactly the header, with no step
  line after it.
\<close>

theorem generate_workflow_header_only:
  "generate_workflow today [] = header
   \<and> ((\<forall>(name, ref, details) \<in> set (entries actions).
          \<not> (expires_at details > calculate_expiry today 4 \<and> \<not> truthy (keep details)))
        \<longrightarrow> generate_workflow today actions = header)"
proof (intro conjI impI)
  show "generate_workflow today [] = header"
    by (simp add: generate_workflow_def)
  assume none: "\<forall>(name, ref, details) \<in> set (entries actions).
     \<not> (expires_at details > calculate_expiry today 4 \<and> \<not> truthy (keep details))"
  have "filter (\<lambda>(name, ref, details). today + 28 < expires_at details \<and> keep details \<noteq> Some True)
          (entries actions) = []"
    using none by (auto simp: filter_empty_conv calculate_expiry_def truthy_iff)
  then show "generate_workflow today actions = header"
    by (simp add: generate_workflow_entries)
qed

theorem generate_workflow_header_only_witness:
  "generate_workflow 739000
     [(''o/r'', [(''v1'', \<lparr>expires_at = 739028, keep = None\<rparr>),
                 (''v3'', \<lparr>expires_at = 739400, keep = Some True\<rparr>)]),
      (''p/q'', [])] = header"
  using generate_workflow_header_only [of 739000
     "[(''o/r'', [(''v1'', \<lparr>expires_at = 739028, keep = None\<rparr>),
                 (''v3'', \<lparr>expires_at = 739400, keep = Some True\<rparr>)]),
      (''p/q'', [])]"]
  by (simp add: entries_def calculate_expiry_def)

subsection \<open>Splitting the \<open>uses\<close> string\<close>

lemma split_nonempty: "split c s \<noteq> []"
  by (induction s) (auto split: list.splits)

lemma split_none: "c \<notin> set s \<Longrightarrow> split c s = [s]"
  by (induction s) auto

lemma split_once: "c \<notin> set a \<Longrightarrow> c \<notin> set b \<Longrightarrow> split c (a @ c # b) = [a, b]"
  by (induction a) (auto simp: split_none)

lemma length_split: "length (split c s) = Suc (count_list s c)"
  by (induction s) (auto split: list.splits simp: split_nonempty)

lemma split_two_iff: "(\<exists>a b. split c s = [a, b]) \<longleftrightarrow> count_list s c = 1"
proof
  assume "\<exists>a b. split c s = [a, b]"
  then obtain a b where "split c s = [a, b]" by blast
  then have "length (split c s) = 2" by simp
  then show "count_list s c = 1" by (simp add: length_split)
next
  assume "count_list s c = 1"
  then have "length (split c s) = 2" by (simp add: length_split)
  then show "\<exists>a b. split c s = [a, b]"
    by (cases "split c s" rule: list.exhaust) (auto simp: length_Suc_conv)
qed

subsection \<open>One round of the updater\<close>

lemma update_append_new: "k \<notin> fst ` set al \<Longrightarrow> AList.update k v al = al @ [(k, v)]"
  by (induction al) auto

lemma map_of_None_iff: "map_of al k = None \<longleftrightarrow> k \<notin> fst ` set al"
  by (simp add: map_of_eq_None_iff)

lemma update_step_new_name:
  assumes "map_of step ''uses'' = Some uses" "split CHR ''@'' uses = [name, ref]"
    and "name \<notin> fst ` set action_refs"
  shows "update_step today step action_refs =
     Inr (action_refs @ [(name, [(ref, \<lparr>expires_at = date_2100_1_1, keep = Some False\<rparr>)])])"
proof -
  have none: "map_of action_refs name = None"
    using assms(3) by (simp add: map_of_None_iff)
  have upd: "AList.update name v (action_refs @ [(name, w)]) = action_refs @ [(name, v)]" for v w
    using assms(3) by (induction action_refs) auto
  show ?thesis
    using assms none
    by (simp add: update_step_def Let_def update_append_new map_add_def upd)
qed

lemma update_step_new_ref:
  assumes "map_of step ''uses'' = Some uses" "split CHR ''@'' uses = [name, ref]"
    and "map_of action_refs name = Some refs" "ref \<notin> fst ` set refs"
  shows "update_step today step action_refs =
     Inr (AList.update name
            (map (\<lambda>(r, details). (r, details\<lparr>expires_at := today + 12 * 7\<rparr>)) refs @
               [(ref, \<lparr>expires_at = date_2100_1_1, keep = Some False\<rparr>)]) action_refs)"
proof -
  have in_dom: "name \<in> fst ` set action_refs"
    using assms(3) by (metis map_of_None_iff option.distinct(1))
  have keys: "ref \<notin> fst ` set (map (\<lambda>(r, details). (r, details\<lparr>expires_at := today + 12 * 7\<rparr>)) refs)"
    using assms(4) by (auto simp: image_iff split: prod.splits)
  show ?thesis
    using assms in_dom update_append_new [OF keys]
    by (simp add: update_step_def Let_def calculate_expiry_def)
qed

lemma update_step_noop:
  assumes "map_of step ''uses'' = Some uses" "split CHR ''@'' uses = [name, ref]"
    and "has_ref action_refs name ref"
  shows "update_step today step action_refs = Inr action_refs"
proof -
  from assms(3) obtain refs where refs: "map_of action_refs name = Some refs" "ref \<in> fst ` set refs"
    by (auto simp: has_ref_def split: option.splits)
  have in_dom: "name \<in> fst ` set action_refs"
    using refs(1) by (metis map_of_None_iff option.distinct(1))
  show ?thesis
    using assms(1,2) refs in_dom by (simp add: update_step_def Let_def)
qed

lemma update_step_present_noop:
  "step_present step action_refs \<Longrightarrow> update_step today step action_refs = Inr action_refs"
  unfolding step_present_def
  by (auto split: option.splits list.splits intro: update_step_noop)

lemma update_step_cases:
  assumes "update_step today step action_refs = Inr action_refs'"
  obtains uses name ref where "map_of step ''uses'' = Some uses" "split CHR ''@'' uses = [name, ref]"
proof -
  from assms obtain uses where u: "map_of step ''uses'' = Some uses"
    by (auto simp: update_step_def split: option.splits)
  from assms u obtain name ref where "split CHR ''@'' uses = [name, ref]"
    by (auto simp: update_step_def split: list.splits)
  with u that show ?thesis by blast
qed

lemma has_ref_update_same:
  "has_ref (AList.update name refs action_refs) name ref \<longleftrightarrow> ref \<in> fst ` set refs"
  by (simp add: has_ref_def AList.update_conv')

lemma has_ref_update_other:
  "n \<noteq> name \<Longrightarrow> has_ref (AList.update name refs action_refs) n r \<longleftrightarrow> has_ref action_refs n r"
  by (simp add: has_ref_def AList.update_conv')

lemma update_step_result:
  assumes "update_step today step action_refs = Inr action_refs'"
    and "map_of step ''uses'' = Some uses" "split CHR ''@'' uses = [name, ref]"
  shows "has_ref action_refs' name ref"
    and "has_ref action_refs n r \<Longrightarrow> has_ref action_refs' n r"
proof -
  show "has_ref action_refs' name ref"
  proof (cases "map_of action_refs name")
    case None
    then have "name \<notin> fst ` set action_refs" by (simp add: map_of_None_iff)
    from update_step_new_name [OF assms(2,3) this, of today] assms(1)
    show ?thesis using None by (auto simp: has_ref_def map_add_def)
  next
    case (Some refs)
    show ?thesis
    proof (cases "ref \<in> fst ` set refs")
      case True
      then have h: "has_ref action_refs name ref" using Some by (simp add: has_ref_def)
      from update_step_noop [OF assms(2,3) h, of today] assms(1) h show ?thesis by simp
    next
      case False
      from update_step_new_ref [OF assms(2,3) Some False, of today] assms(1)
      show ?thesis by (auto simp: has_ref_update_same)
    qed
  qed
  assume old: "has_ref action_refs n r"
  show "has_ref action_refs' n r"
  proof (cases "map_of action_refs name")
    case None
    then have nd: "name \<notin> fst ` set action_refs" by (simp add: map_of_None_iff)
    from None old have "n \<noteq> name" by (auto simp: has_ref_def)
    with update_step_new_name [OF assms(2,3) nd, of today] assms(1) old
    show ?thesis by (auto simp: has_ref_def map_add_def split: option.splits)
  next
    case (Some refs)
    show ?thesis
    proof (cases "ref \<in> fst ` set refs")
      case True
      then have h: "has_ref action_refs name ref" using Some by (simp add: has_ref_def)
      from update_step_noop [OF assms(2,3) h, of today] assms(1) old show ?thesis by simp
    next
      case False
      note res = update_step_new_ref [OF assms(2,3) Some False, of today]
      show ?thesis
      proof (cases "n = name")
        case True
        with old Some have "r \<in> fst ` set refs" by (simp add: has_ref_def)
        then have "r \<in> fst ` set (map (\<lambda>(r, details). (r, details\<lparr>expires_at := today + 12 * 7\<rparr>)) refs)"
          by (force simp: image_iff)
        with res assms(1) True show ?thesis by (auto simp: has_ref_update_same)
      next
        case False
        with res assms(1) old show ?thesis by (auto simp: has_ref_update_other)
      qed
    qed
  qed
qed

lemma update_step_establishes:
  "update_step today step action_refs = Inr action_refs' \<Longrightarrow> step_present step action_refs'"
proof -
  assume r: "update_step today step action_refs = Inr action_refs'"
  then obtain uses name ref where
    u: "map_of step ''uses'' = Some uses" "split CHR ''@'' uses = [name, ref]"
    by (rule update_step_cases)
  from update_step_result(1) [OF r u] u show ?thesis
    by (simp add: step_present_def)
qed

lemma update_step_keeps_present:
  assumes "update_step today step action_refs = Inr action_refs'" "step_present s action_refs"
  shows "step_present s action_refs'"
proof -
  from assms(1) obtain uses name ref where
    u: "map_of step ''uses'' = Some uses" "split CHR ''@'' uses = [name, ref]"
    by (rule update_step_cases)
  from assms(2) show ?thesis
    unfolding step_present_def
    by (auto split: option.splits list.splits dest: update_step_result(2) [OF assms(1) u])
qed

lemma update_refs_keeps_present:
  "update_refs today steps action_refs = Inr action_refs' \<Longrightarrow> step_present s action_refs
    \<Longrightarrow> step_present s action_refs'"
proof (induction steps arbitrary: action_refs)
  case Nil then show ?case by simp
next
  case (Cons a steps)
  then show ?case by (auto split: sum.splits dest: update_step_keeps_present)
qed

lemma update_refs_establishes:
  "update_refs today steps action_refs = Inr action_refs' \<Longrightarrow> s \<in> set steps
    \<Longrightarrow> step_present s action_refs'"
proof (induction steps arbitrary: action_refs)
  case Nil then show ?case by simp
next
  case (Cons a steps)
  from Cons.prems(1) obtain a1 where a1: "update_step today a action_refs = Inr a1"
    "update_refs today steps a1 = Inr action_refs'"
    by (auto split: sum.splits)
  show ?case
  proof (cases "s = a")
    case True
    from update_step_establishes [OF a1(1)] update_refs_keeps_present [OF a1(2)] True
    show ?thesis by blast
  next
    case False
    with Cons.prems(2) have "s \<in> set steps" by simp
    from Cons.IH [OF a1(2) this] show ?thesis .
  qed
qed

lemma update_refs_all_present:
  "\<forall>s \<in> set steps. step_present s action_refs \<Longrightarrow> update_refs today steps action_refs = Inr action_refs"
  by (induction steps) (auto simp: update_step_present_noop)

lemma update_refs_append:
  "update_refs today (xs @ ys) action_refs =
     (case update_refs today xs action_refs of
        Inl e \<Rightarrow> Inl e
      | Inr action_refs' \<Rightarrow> update_refs today ys action_refs')"
  by (induction xs arbitrary: action_refs) (auto split: sum.splits)

lemma date_2100_1_1_value: "date_2100_1_1 = 766645"
  by (simp add: date_2100_1_1_def)

lemma uses_split:
  "CHR ''@'' \<notin> set name \<Longrightarrow> CHR ''@'' \<notin> set ref \<Longrightarrow> split CHR ''@'' (name @ ''@'' @ ref) = [name, ref]"
  using split_once [of "CHR ''@''" name ref] by simp

subsection \<open>A new reference for a known name\<close>

text \<open>
  Claim C1. For every store and every observed step \<open>name@reference\<close> whose name is in the
  store and whose reference is not yet in the group of that name, \<open>update_refs\<close> sets the
  \<open>expires_at\<close> of every reference of the group to today plus 12 weeks, whatever it was,
  and appends the new reference to the group with \<open>expires_at\<close> 2100-01-01 (ordinal
  766645) and \<open>keep = False\<close>. The names keep their order and the other groups are
  untouched.
\<close>

theorem update_refs_new_reference:
  assumes "map_of step ''uses'' = Some (name @ ''@'' @ ref)"
    and "CHR ''@'' \<notin> set name" "CHR ''@'' \<notin> set ref"
    and "map_of action_refs name = Some refs" "ref \<notin> fst ` set refs"
  shows "\<exists>action_refs'.
      update_refs today [step] action_refs = Inr action_refs'
    \<and> update_refs today (step # rest) action_refs = update_refs today rest action_refs'
    \<and> map_of action_refs' name =
        Some (map (\<lambda>(r, details). (r, details\<lparr>expires_at := today + 12 * 7\<rparr>)) refs @
              [(ref, \<lparr>expires_at = date_2100_1_1, keep = Some False\<rparr>)])
    \<and> map fst action_refs' = map fst action_refs
    \<and> (\<forall>n. n \<noteq> name \<longrightarrow> map_of action_refs' n = map_of action_refs n)
    \<and> date_2100_1_1 = 766645"
proof -
  let ?refs' = "map (\<lambda>(r, details). (r, details\<lparr>expires_at := today + 12 * 7\<rparr>)) refs @
              [(ref, \<lparr>expires_at = date_2100_1_1, keep = Some False\<rparr>)]"
  have sp: "split CHR ''@'' (name @ ''@'' @ ref) = [name, ref]"
    using assms(2,3) by (rule uses_split)
  have st: "update_step today step action_refs = Inr (AList.update name ?refs' action_refs)"
    using assms(1) sp assms(4,5) by (rule update_step_new_ref)
  have in_dom: "name \<in> set (map fst action_refs)"
    using assms(4) by (metis map_of_None_iff option.distinct(1) set_map)
  have keys: "map fst (AList.update name ?refs' action_refs) = map fst action_refs"
    using in_dom by (simp add: AList.update_keys)
  show ?thesis
    using st keys by (simp add: AList.update_conv' date_2100_1_1_value)
qed

theorem update_refs_new_reference_witness:
  "update_refs 739000 [[(''uses'', ''o/r@r2'')]]
     [(''o/r'', [(''r1'', \<lparr>expires_at = 739007, keep = None\<rparr>)])] =
   Inr [(''o/r'', [(''r1'', \<lparr>expires_at = 739084, keep = None\<rparr>),
                   (''r2'', \<lparr>expires_at = 766645, keep = Some False\<rparr>)])]"
proof -
  from update_refs_new_reference
    [of "[(''uses'', ''o/r@r2'')]" "''o/r''" "''r2''"
        "[(''o/r'', [(''r1'', \<lparr>expires_at = 739007, keep = None\<rparr>)])]"
        "[(''r1'', \<lparr>expires_at = 739007, keep = None\<rparr>)]" 739000 "[]"]
  obtain a where a: "update_refs 739000 [[(''uses'', ''o/r@r2'')]]
     [(''o/r'', [(''r1'', \<lparr>expires_at = 739007, keep = None\<rparr>)])] = Inr a"
    "map_of a ''o/r'' = Some [(''r1'', \<lparr>expires_at = 739084, keep = None\<rparr>),
                   (''r2'', \<lparr>expires_at = 766645, keep = Some False\<rparr>)]"
    "map fst a = [''o/r'']"
    by auto
  from a(3) obtain v where "a = [(''o/r'', v)]" by (cases a) auto
  with a(2) have "a = [(''o/r'', [(''r1'', \<lparr>expires_at = 739084, keep = None\<rparr>),
                   (''r2'', \<lparr>expires_at = 766645, keep = Some False\<rparr>)])]" by simp
  with a(1) show ?thesis by simp
qed

text \<open>
  Claim C8. When \<open>update_refs\<close> inserts a new reference into a group, a sibling with
  \<open>keep = True\<close> has its \<open>expires_at\<close> overwritten with today plus 12 weeks as well:
  the flag does not exempt it from the rewrite, and stays set.
\<close>

theorem update_refs_bumps_kept_sibling:
  assumes "map_of step ''uses'' = Some (name @ ''@'' @ ref)"
    and "CHR ''@'' \<notin> set name" "CHR ''@'' \<notin> set ref"
    and "map_of action_refs name = Some refs" "ref \<notin> fst ` set refs"
    and "wf_refs refs" "(r, details) \<in> set refs" "keep details = Some True"
  shows "\<exists>action_refs' refs'.
      update_refs today [step] action_refs = Inr action_refs'
    \<and> map_of action_refs' name = Some refs'
    \<and> map_of refs' r = Some \<lparr>expires_at = today + 12 * 7, keep = Some True\<rparr>"
proof -
  let ?bump = "\<lambda>details :: RefDetails. details\<lparr>expires_at := today + 12 * 7\<rparr>"
  let ?refs' = "map (\<lambda>(r, details). (r, ?bump details)) refs @
              [(ref, \<lparr>expires_at = date_2100_1_1, keep = Some False\<rparr>)]"
  have sp: "split CHR ''@'' (name @ ''@'' @ ref) = [name, ref]"
    using assms(2,3) by (rule uses_split)
  have st: "update_step today step action_refs = Inr (AList.update name ?refs' action_refs)"
    using assms(1) sp assms(4,5) by (rule update_step_new_ref)
  have "map_of refs r = Some details"
    using assms(6,7) by (simp add: wf_refs_def)
  then have "map_of (map (\<lambda>(r, details). (r, ?bump details)) refs) r = Some (?bump details)"
    by (simp add: map_of_map)
  then have "map_of ?refs' r = Some (?bump details)"
    by (simp add: map_add_def)
  moreover have "?bump details = \<lparr>expires_at = today + 12 * 7, keep = Some True\<rparr>"
    using assms(8) by (cases details) simp
  ultimately show ?thesis
    using st by (simp add: AList.update_conv')
qed

theorem update_refs_bumps_kept_sibling_witness:
  "\<exists>a refs'. update_refs 739000 [[(''uses'', ''o/r@r2'')]]
     [(''o/r'', [(''r1'', \<lparr>expires_at = 800000, keep = Some True\<rparr>)])] = Inr a
    \<and> map_of a ''o/r'' = Some refs'
    \<and> map_of refs' ''r1'' = Some \<lparr>expires_at = 739084, keep = Some True\<rparr>"
  using update_refs_bumps_kept_sibling
    [of "[(''uses'', ''o/r@r2'')]" "''o/r''" "''r2''"
        "[(''o/r'', [(''r1'', \<lparr>expires_at = 800000, keep = Some True\<rparr>)])]"
        "[(''r1'', \<lparr>expires_at = 800000, keep = Some True\<rparr>)]"
        "''r1''" "\<lparr>expires_at = 800000, keep = Some True\<rparr>" 739000]
  by (simp add: wf_refs_def)

lemma step_present_uses:
  assumes "step_present s action_refs"
  obtains uses name ref where "map_of s ''uses'' = Some uses" "split CHR ''@'' uses = [name, ref]"
    "has_ref action_refs name ref"
  using assms unfolding step_present_def
  by (auto split: option.splits list.splits)

lemma step_present_one_separator:
  "step_present s action_refs \<Longrightarrow> map_of s ''uses'' = Some uses \<Longrightarrow> count_list uses CHR ''@'' = 1"
  by (erule step_present_uses) (use split_two_iff in fastforce)

lemma update_step_bad_uses:
  assumes "map_of step ''uses'' = Some uses" "count_list uses CHR ''@'' \<noteq> 1"
  shows "update_step today step action_refs = Inl ValueError"
proof -
  have "\<not> (\<exists>a b. split CHR ''@'' uses = [a, b])"
    using assms(2) by (simp add: split_two_iff)
  then show ?thesis
    using assms(1) by (auto simp: update_step_def split: list.splits)
qed

subsection \<open>Malformed steps\<close>

text \<open>
  Claim C5, as stated, says that \<open>update_refs\<close> splits the \<open>uses\<close> string on its last
  \<open>@\<close>. The code splits on every \<open>@\<close> and unpacks two parts: a string with two
  separators is an error, not the name \<open>o/r@v1\<close> with the reference \<open>x\<close>.
\<close>

theorem update_refs_split_last_counterexample:
  "spec_split_last CHR ''@'' ''o/r@v1@x'' = Some (''o/r@v1'', ''x'')
   \<and> update_refs 739000 [[(''uses'', ''o/r@v1@x'')]] [] = Inl ValueError"
  by (simp add: spec_split_last_def update_step_def)

text \<open>
  Claim C5, amended. \<open>update_refs\<close> splits the \<open>uses\<close> string of a step at its \<open>@\<close>
  when there is exactly one, and the step is then applied (its reference is in the group of
  its name afterwards). When the string has no \<open>@\<close> or more than one, the step raises
  ValueError and the call returns the error: a step with such a string anywhere in the
  list makes the whole call fail, so no malformed step is skipped.
\<close>

theorem update_refs_split_single_separator:
  "(map_of step ''uses'' = Some (name @ ''@'' @ ref) \<and> CHR ''@'' \<notin> set name \<and> CHR ''@'' \<notin> set ref
      \<longrightarrow> split CHR ''@'' (name @ ''@'' @ ref) = [name, ref]
        \<and> (\<exists>action_refs' refs. update_refs today [step] action_refs = Inr action_refs'
              \<and> map_of action_refs' name = Some refs \<and> ref \<in> fst ` set refs))
   \<and> (map_of step ''uses'' = Some uses \<and> count_list uses CHR ''@'' \<noteq> 1
      \<longrightarrow> update_refs today (step # rest) action_refs = Inl ValueError)
   \<and> (step \<in> set dummy_steps \<and> map_of step ''uses'' = Some uses \<and> count_list uses CHR ''@'' \<noteq> 1
      \<longrightarrow> (\<exists>e. update_refs today dummy_steps action_refs = Inl e))"
proof (intro conjI impI)
  assume h: "map_of step ''uses'' = Some (name @ ''@'' @ ref) \<and> CHR ''@'' \<notin> set name \<and> CHR ''@'' \<notin> set ref"
  then show sp: "split CHR ''@'' (name @ ''@'' @ ref) = [name, ref]"
    by (simp add: split_once)
  have "\<exists>a'. update_step today step action_refs = Inr a'"
    using h sp by (auto simp: update_step_def Let_def AList.update_conv' split: option.splits
        simp flip: map_of_None_iff)
  then obtain a' where a': "update_step today step action_refs = Inr a'" by blast
  from update_step_result(1) [OF a' _ sp] h have "has_ref a' name ref" by simp
  with a' show "\<exists>action_refs' refs. update_refs today [step] action_refs = Inr action_refs'
              \<and> map_of action_refs' name = Some refs \<and> ref \<in> fst ` set refs"
    by (auto simp: has_ref_def split: option.splits)
next
  assume "map_of step ''uses'' = Some uses \<and> count_list uses CHR ''@'' \<noteq> 1"
  then show "update_refs today (step # rest) action_refs = Inl ValueError"
    by (simp add: update_step_bad_uses)
next
  assume h: "step \<in> set dummy_steps \<and> map_of step ''uses'' = Some uses \<and> count_list uses CHR ''@'' \<noteq> 1"
  show "\<exists>e. update_refs today dummy_steps action_refs = Inl e"
  proof (cases "update_refs today dummy_steps action_refs")
    case (Inl e)
    then show ?thesis by blast
  next
    case (Inr a')
    from update_refs_establishes [OF Inr] h have "step_present step a'" by blast
    from step_present_one_separator [OF this] h show ?thesis by blast
  qed
qed

theorem update_refs_split_single_separator_witness:
  "split CHR ''@'' ''o/r@v1'' = [''o/r'', ''v1'']
   \<and> update_refs 739000 [[(''uses'', ''o/r'')], [(''uses'', ''o/r@v1'')]] [] = Inl ValueError
   \<and> (\<exists>e. update_refs 739000 [[(''uses'', ''o/r@v1'')], [(''uses'', ''o/r@v1@x'')]] [] = Inl e)"
  using update_refs_split_single_separator
    [where step = "[(''uses'', ''o/r@v1'')]" and name = "''o/r''" and ref = "''v1''"
       and today = 739000 and action_refs = "[]"]
    update_refs_split_single_separator
    [where step = "[(''uses'', ''o/r'')]" and uses = "''o/r''" and today = 739000
       and action_refs = "[]" and rest = "[[(''uses'', ''o/r@v1'')]]"]
    update_refs_split_single_separator
    [where step = "[(''uses'', ''o/r@v1@x'')]" and uses = "''o/r@v1@x''" and today = 739000
       and action_refs = "[]"
       and dummy_steps = "[[(''uses'', ''o/r@v1'')], [(''uses'', ''o/r@v1@x'')]]"]
  by simp

subsection \<open>References that are already there\<close>

text \<open>
  Claim C6. For every store and every observed pair whose reference is already in the
  group of its name, \<open>update_refs\<close> leaves the store as it is. Hence a second call with the
  same steps, on the store the first call returned, returns that store unchanged (whatever
  the date of the second call), and a step that repeats the pair of an earlier step of
  the same call can be dropped without changing the result.
\<close>

theorem update_refs_existing_noop:
  "(map_of step ''uses'' = Some (name @ ''@'' @ ref) \<and> CHR ''@'' \<notin> set name \<and> CHR ''@'' \<notin> set ref
      \<and> map_of action_refs name = Some refs \<and> ref \<in> fst ` set refs
      \<longrightarrow> update_refs today [step] action_refs = Inr action_refs
        \<and> update_refs today (step # rest) action_refs = update_refs today rest action_refs)
   \<and> (update_refs today dummy_steps action_refs = Inr action_refs'
      \<longrightarrow> update_refs today' dummy_steps action_refs' = Inr action_refs')
   \<and> (step \<in> set pre \<and> map_of step' ''uses'' = map_of step ''uses''
      \<longrightarrow> update_refs today (pre @ step' # post) action_refs =
          update_refs today (pre @ post) action_refs)"
proof (intro conjI impI)
  assume h: "map_of step ''uses'' = Some (name @ ''@'' @ ref) \<and> CHR ''@'' \<notin> set name \<and> CHR ''@'' \<notin> set ref
      \<and> map_of action_refs name = Some refs \<and> ref \<in> fst ` set refs"
  then have sp: "split CHR ''@'' (name @ ''@'' @ ref) = [name, ref]"
    by (simp add: split_once)
  from h have "has_ref action_refs name ref" by (simp add: has_ref_def)
  with h sp have st: "update_step today step action_refs = Inr action_refs"
    by (blast intro: update_step_noop)
  then show "update_refs today [step] action_refs = Inr action_refs" by simp
  from st show "update_refs today (step # rest) action_refs = update_refs today rest action_refs"
    by simp
next
  assume r: "update_refs today dummy_steps action_refs = Inr action_refs'"
  then have "\<forall>s \<in> set dummy_steps. step_present s action_refs'"
    by (blast intro: update_refs_establishes)
  then show "update_refs today' dummy_steps action_refs' = Inr action_refs'"
    by (rule update_refs_all_present)
next
  assume h: "step \<in> set pre \<and> map_of step' ''uses'' = map_of step ''uses''"
  show "update_refs today (pre @ step' # post) action_refs = update_refs today (pre @ post) action_refs"
  proof (cases "update_refs today pre action_refs")
    case (Inl e)
    then show ?thesis by (simp add: update_refs_append)
  next
    case (Inr a1)
    from update_refs_establishes [OF Inr] h have "step_present step a1" by blast
    with h have "step_present step' a1" by (simp add: step_present_def)
    then have "update_step today step' a1 = Inr a1" by (rule update_step_present_noop)
    with Inr show ?thesis by (simp add: update_refs_append)
  qed
qed

theorem update_refs_existing_noop_witness:
  "update_refs 739000 [[(''uses'', ''o/r@r1'')]]
     [(''o/r'', [(''r1'', \<lparr>expires_at = 739007, keep = None\<rparr>)])] =
     Inr [(''o/r'', [(''r1'', \<lparr>expires_at = 739007, keep = None\<rparr>)])]
   \<and> update_refs 739500 [[(''uses'', ''o/r@r2'')], [(''uses'', ''p/q@v'')]]
       [(''o/r'', [(''r1'', \<lparr>expires_at = 739084, keep = None\<rparr>),
                   (''r2'', \<lparr>expires_at = 766645, keep = Some False\<rparr>)]),
        (''p/q'', [(''v'', \<lparr>expires_at = 766645, keep = Some False\<rparr>)])] =
     Inr [(''o/r'', [(''r1'', \<lparr>expires_at = 739084, keep = None\<rparr>),
                   (''r2'', \<lparr>expires_at = 766645, keep = Some False\<rparr>)]),
        (''p/q'', [(''v'', \<lparr>expires_at = 766645, keep = Some False\<rparr>)])]
   \<and> update_refs 739000 ([[(''uses'', ''o/r@r2'')]] @ [(''uses'', ''o/r@r2'')] # [[(''uses'', ''p/q@v'')]])
       [(''o/r'', [(''r1'', \<lparr>expires_at = 739007, keep = None\<rparr>)])] =
     update_refs 739000 ([[(''uses'', ''o/r@r2'')]] @ [[(''uses'', ''p/q@v'')]])
       [(''o/r'', [(''r1'', \<lparr>expires_at = 739007, keep = None\<rparr>)])]"
proof (intro conjI)
  show "update_refs 739000 [[(''uses'', ''o/r@r1'')]]
     [(''o/r'', [(''r1'', \<lparr>expires_at = 739007, keep = None\<rparr>)])] =
     Inr [(''o/r'', [(''r1'', \<lparr>expires_at = 739007, keep = None\<rparr>)])]"
    using update_refs_existing_noop
      [of "[(''uses'', ''o/r@r1'')]" "''o/r''" "''r1''"
          "[(''o/r'', [(''r1'', \<lparr>expires_at = 739007, keep = None\<rparr>)])]"
          "[(''r1'', \<lparr>expires_at = 739007, keep = None\<rparr>)]" 739000]
    by simp
  have first: "update_refs 739000 [[(''uses'', ''o/r@r2'')], [(''uses'', ''p/q@v'')]]
       [(''o/r'', [(''r1'', \<lparr>expires_at = 739007, keep = None\<rparr>)])] =
     Inr [(''o/r'', [(''r1'', \<lparr>expires_at = 739084, keep = None\<rparr>),
                   (''r2'', \<lparr>expires_at = 766645, keep = Some False\<rparr>)]),
        (''p/q'', [(''v'', \<lparr>expires_at = 766645, keep = Some False\<rparr>)])]"
    by (simp add: update_step_def calculate_expiry_def date_2100_1_1_def)
  from update_refs_existing_noop
      [where today = 739000 and today' = 739500
         and dummy_steps = "[[(''uses'', ''o/r@r2'')], [(''uses'', ''p/q@v'')]]"
         and action_refs = "[(''o/r'', [(''r1'', \<lparr>expires_at = 739007, keep = None\<rparr>)])]"
         and action_refs' = "[(''o/r'', [(''r1'', \<lparr>expires_at = 739084, keep = None\<rparr>),
                   (''r2'', \<lparr>expires_at = 766645, keep = Some False\<rparr>)]),
        (''p/q'', [(''v'', \<lparr>expires_at = 766645, keep = Some False\<rparr>)])]"] first
  show "update_refs 739500 [[(''uses'', ''o/r@r2'')], [(''uses'', ''p/q@v'')]]
       [(''o/r'', [(''r1'', \<lparr>expires_at = 739084, keep = None\<rparr>),
                   (''r2'', \<lparr>expires_at = 766645, keep = Some False\<rparr>)]),
        (''p/q'', [(''v'', \<lparr>expires_at = 766645, keep = Some False\<rparr>)])] =
     Inr [(''o/r'', [(''r1'', \<lparr>expires_at = 739084, keep = None\<rparr>),
                   (''r2'', \<lparr>expires_at = 766645, keep = Some False\<rparr>)]),
        (''p/q'', [(''v'', \<lparr>expires_at = 766645, keep = Some False\<rparr>)])]"
    by blast
  from update_refs_existing_noop
      [where step = "[(''uses'', ''o/r@r2'')]" and step' = "[(''uses'', ''o/r@r2'')]"
         and pre = "[[(''uses'', ''o/r@r2'')]]" and post = "[[(''uses'', ''p/q@v'')]]"
         and today = 739000
         and action_refs = "[(''o/r'', [(''r1'', \<lparr>expires_at = 739007, keep = None\<rparr>)])]"]
  show "update_refs 739000 ([[(''uses'', ''o/r@r2'')]] @ [(''uses'', ''o/r@r2'')] # [[(''uses'', ''p/q@v'')]])
       [(''o/r'', [(''r1'', \<lparr>expires_at = 739007, keep = None\<rparr>)])] =
     update_refs 739000 ([[(''uses'', ''o/r@r2'')]] @ [[(''uses'', ''p/q@v'')]])
       [(''o/r'', [(''r1'', \<lparr>expires_at = 739007, keep = None\<rparr>)])]"
    by simp
qed

subsection \<open>The deletion loop of the pruner\<close>

lemma delete_as_filter: "AList.delete k al = filter (\<lambda>(k', v). k' \<noteq> k) al"
  by (induction al) (auto simp: AList.delete_eq)

lemma delete_refs_block:
  assumes "map_of actions name = Some action" "distinct (map fst action)"
    and "distinct rs" "set rs \<subseteq> fst ` set action"
  shows "delete_refs (map (Pair name) rs @ rest) actions =
     delete_refs rest
       (if rs = [] then actions
        else (let action' = filter (\<lambda>(r, details). r \<notin> set rs) action
              in if action' = [] then AList.delete name actions
                 else AList.update name action' actions))"
  using assms
proof (induction rs arbitrary: action actions)
  case Nil
  show ?case by simp
next
  case (Cons r rs)
  let ?action1 = "AList.delete r action"
  have r_in: "r \<in> fst ` set action" and r_notin: "r \<notin> set rs"
    and rs_sub: "set rs \<subseteq> fst ` set action"
    using Cons.prems by auto
  have a1: "?action1 = filter (\<lambda>(r', details). r' \<noteq> r) action"
    by (rule delete_as_filter)
  have keys1: "fst ` set ?action1 = fst ` set action - {r}"
    by (auto simp: a1 image_iff)
  have f1: "filter (\<lambda>(r', details). r' \<notin> set rs) ?action1 =
            filter (\<lambda>(r', details). r' \<notin> set (r # rs)) action"
    by (auto simp: a1 intro: filter_cong)
  show ?case
  proof (cases "?action1 = []")
    case True
    then have "fst ` set action \<subseteq> {r}" using keys1 by auto
    with rs_sub r_notin have rs: "rs = []" by (cases rs) auto
    show ?thesis
      using Cons.prems(1) r_in True rs a1 by (simp add: Let_def)
  next
    case False
    let ?actions1 = "AList.update name ?action1 actions"
    have m1: "map_of ?actions1 name = Some ?action1"
      by (simp add: AList.update_conv')
    have d1: "distinct (map fst ?action1)"
      using Cons.prems(2) by (rule AList.distinct_delete)
    have s1: "set rs \<subseteq> fst ` set ?action1"
      using rs_sub r_notin keys1 by auto
    have d2: "distinct rs" using Cons.prems(3) by simp
    note IH = Cons.IH [OF m1 d1 d2 s1]
    have step: "delete_refs (map (Pair name) (r # rs) @ rest) actions =
                delete_refs (map (Pair name) rs @ rest) ?actions1"
      using Cons.prems(1) r_in False by (simp add: Let_def)
    show ?thesis
    proof (cases "rs = []")
      case True
      with step False a1 show ?thesis by (simp add: Let_def)
    next
      case rs: False
      show ?thesis
        unfolding step IH f1 using rs
        by (simp add: Let_def AList.delete_update_same)
    qed
  qed
qed

lemma refs_to_remove_Cons:
  "refs_to_remove today ((name, action) # actions) =
     map (Pair name) (map fst (filter (\<lambda>(ref, details). expired today details) action)) @
     refs_to_remove today actions"
proof -
  have "concat (map (\<lambda>(ref, details). if expires_at details \<le> today \<and> \<not> truthy (keep details)
                       then [(name, ref)] else []) action) =
        map (Pair name) (map fst (filter (\<lambda>(ref, details). expired today details) action))"
    by (induction action) (simp_all add: expired_def truthy_iff split: prod.splits)
  then show ?thesis by (simp add: refs_to_remove_def)
qed

lemma filter_not_removed:
  assumes "distinct (map fst action)"
  shows "filter (\<lambda>(r, details). r \<notin> set (map fst (filter (\<lambda>(ref, details). P details) action))) action =
         filter (\<lambda>(ref, details). \<not> P details) action"
proof (rule filter_cong [OF refl])
  fix x assume x: "x \<in> set action"
  obtain r d where rd: "x = (r, d)" by (cases x)
  have "r \<in> set (map fst (filter (\<lambda>(ref, details). P details) action)) \<longleftrightarrow> P d"
  proof
    assume "r \<in> set (map fst (filter (\<lambda>(ref, details). P details) action))"
    then obtain d' where d': "(r, d') \<in> set action" "P d'" by auto
    from assms d'(1) x rd have "d' = d" by (metis eq_key_imp_eq_value)
    with d'(2) show "P d" by simp
  next
    assume "P d"
    with x rd show "r \<in> set (map fst (filter (\<lambda>(ref, details). P details) action))"
      by (force simp: image_iff)
  qed
  then show "(case x of (r, details) \<Rightarrow> r \<notin> set (map fst (filter (\<lambda>(ref, details). P details) action))) =
             (case x of (ref, details) \<Rightarrow> \<not> P details)"
    by (simp add: rd)
qed

lemma update_middle:
  "name \<notin> fst ` set pre \<Longrightarrow> AList.update name v (pre @ (name, w) # post) = pre @ (name, v) # post"
  by (induction pre) auto

lemma delete_middle:
  "name \<notin> fst ` set pre \<Longrightarrow> name \<notin> fst ` set post \<Longrightarrow>
   AList.delete name (pre @ (name, w) # post) = pre @ post"
proof -
  assume "name \<notin> fst ` set pre" "name \<notin> fst ` set post"
  then have "AList.delete name pre = pre" "AList.delete name post = post"
    by simp_all
  moreover have "AList.delete name (pre @ (name, w) # post) =
      AList.delete name pre @ AList.delete name post"
    by (simp add: AList.delete_eq)
  ultimately show ?thesis by simp
qed

lemma map_of_middle:
  "name \<notin> fst ` set pre \<Longrightarrow> map_of (pre @ (name, w) # post) name = Some w"
  by (induction pre) auto

lemma delete_refs_all:
  assumes "distinct (map fst (pre @ todo))" "list_all (\<lambda>(name, refs). wf_refs refs) todo"
  shows "delete_refs (refs_to_remove today todo) (pre @ todo) =
         Inr (pre @ spec_remove_expired today todo)"
  using assms
proof (induction todo arbitrary: pre)
  case Nil
  show ?case by (simp add: refs_to_remove_def spec_remove_expired_def)
next
  case (Cons a todo)
  obtain name action where a: "a = (name, action)" by (cases a)
  let ?rs = "map fst (filter (\<lambda>(ref, details). expired today details) action)"
  let ?action' = "filter (\<lambda>(ref, details). \<not> expired today details) action"
  have n_pre: "name \<notin> fst ` set pre" and n_todo: "name \<notin> fst ` set todo"
    using Cons.prems(1) a by auto
  have d_action: "distinct (map fst action)"
    using Cons.prems(2) a by (simp add: wf_refs_def)
  have wf_todo: "list_all (\<lambda>(name, refs). wf_refs refs) todo"
    using Cons.prems(2) by simp
  have look: "map_of (pre @ a # todo) name = Some action"
    unfolding a using n_pre by (rule map_of_middle)
  have d_rs: "distinct ?rs"
    using d_action by (simp add: distinct_map_filter)
  have s_rs: "set ?rs \<subseteq> fst ` set action" by auto
  have flt: "filter (\<lambda>(r, details). r \<notin> set ?rs) action = ?action'"
    using d_action by (rule filter_not_removed)
  have rs_empty: "?rs = [] \<longleftrightarrow> ?action' = action"
    by (simp add: filter_empty_conv filter_id_conv split: prod.splits)
  note block = delete_refs_block [OF look d_action d_rs s_rs, of "refs_to_remove today todo",
      unfolded flt]
  have spec_Cons: "spec_remove_expired today ((name, action) # todo) =
      (if action \<noteq> [] \<and> ?action' = [] then [] else [(name, ?action')]) @
      spec_remove_expired today todo"
    by (simp add: spec_remove_expired_def Let_def)
  show ?case
  proof (cases "?rs = []")
    case True
    then have same: "?action' = action" by (rule rs_empty [THEN iffD1])
    have d: "distinct (map fst ((pre @ [a]) @ todo))" using Cons.prems(1) by simp
    from Cons.IH [OF d wf_todo] True block same
    show ?thesis
      by (simp add: refs_to_remove_Cons a spec_Cons)
  next
    case False
    then have ne: "action \<noteq> []" by auto
    show ?thesis
    proof (cases "?action' = []")
      case True
      have d: "distinct (map fst (pre @ todo))" using Cons.prems(1) by simp
      have del: "AList.delete name (pre @ a # todo) = pre @ todo"
        unfolding a using n_pre n_todo by (rule delete_middle)
      from Cons.IH [OF d wf_todo] False block True ne del
      show ?thesis
        by (simp add: refs_to_remove_Cons a spec_Cons Let_def)
    next
      case nonempty: False
      have d: "distinct (map fst ((pre @ [(name, ?action')]) @ todo))"
        using Cons.prems(1) a by simp
      have upd: "AList.update name ?action' (pre @ a # todo) = pre @ (name, ?action') # todo"
        unfolding a using n_pre by (rule update_middle)
      from Cons.IH [OF d wf_todo] False block nonempty upd
      show ?thesis
        by (simp add: refs_to_remove_Cons a spec_Cons Let_def)
    qed
  qed
qed

lemma remove_expired_refs_refines:
  "wf_actions actions \<Longrightarrow> remove_expired_refs today actions = Inr (spec_remove_expired today actions)"
  using delete_refs_all [of "[]" actions today]
  by (simp add: remove_expired_refs_def wf_actions_def)

subsection \<open>The pruned store\<close>

lemma entries_Cons:
  "entries ((name, refs) # actions) = map (\<lambda>(ref, details). (name, ref, details)) refs @ entries actions"
  by (simp add: entries_def)

lemma entries_iff:
  "(name, ref, details) \<in> set (entries actions) \<longleftrightarrow>
     (\<exists>refs. (name, refs) \<in> set actions \<and> (ref, details) \<in> set refs)"
  by (induction actions) (auto simp: entries_def)

lemma spec_remove_expired_Cons:
  "spec_remove_expired today ((name, refs) # actions) =
     (if refs \<noteq> [] \<and> filter (\<lambda>(ref, details). \<not> expired today details) refs = [] then []
      else [(name, filter (\<lambda>(ref, details). \<not> expired today details) refs)]) @
     spec_remove_expired today actions"
  by (simp add: spec_remove_expired_def Let_def)

lemma spec_remove_expired_iff:
  "(name, refs') \<in> set (spec_remove_expired today actions) \<longleftrightarrow>
     (\<exists>refs. (name, refs) \<in> set actions
        \<and> refs' = filter (\<lambda>(ref, details). \<not> expired today details) refs
        \<and> (refs = [] \<or> refs' \<noteq> []))"
proof (induction actions)
  case Nil
  show ?case by (simp add: spec_remove_expired_def)
next
  case (Cons a actions)
  obtain n g where a: "a = (n, g)" by (cases a)
  show ?case
    unfolding a spec_remove_expired_Cons using Cons.IH by auto
qed

lemma entries_spec_remove_expired:
  "entries (spec_remove_expired today actions) =
     filter (\<lambda>(name, ref, details). \<not> expired today details) (entries actions)"
proof (induction actions)
  case Nil
  show ?case by (simp add: spec_remove_expired_def entries_def)
next
  case (Cons a actions)
  obtain n g where a: "a = (n, g)" by (cases a)
  have inner: "map (\<lambda>(ref, details). (n, ref, details)) (filter (\<lambda>(ref, details). \<not> expired today details) g) =
      filter (\<lambda>(name, ref, details). \<not> expired today details) (map (\<lambda>(ref, details). (n, ref, details)) g)"
    by (induction g) auto
  have app: "entries (xs @ ys) = entries xs @ entries ys" for xs ys
    by (simp add: entries_def)
  show ?case
    unfolding a spec_remove_expired_Cons app entries_Cons using Cons.IH inner
    by (auto simp: entries_def)
qed

lemma keys_spec_remove_expired:
  "map fst (spec_remove_expired today actions) =
     filter (\<lambda>name. name \<in> fst ` set (spec_remove_expired today actions)) (map fst actions)"
  if "distinct (map fst actions)"
  using that
proof (induction actions)
  case Nil
  show ?case by (simp add: spec_remove_expired_def)
next
  case (Cons a actions)
  obtain n g where a: "a = (n, g)" by (cases a)
  have sub: "fst ` set (spec_remove_expired today actions) \<subseteq> fst ` set actions"
    by (force simp: spec_remove_expired_iff image_iff)
  from Cons.prems a have n: "n \<notin> fst ` set actions" and d: "distinct (map fst actions)" by auto
  from n sub have n': "n \<notin> fst ` set (spec_remove_expired today actions)" by blast
  have cong: "filter (\<lambda>name. name = n \<or> name \<in> fst ` set (spec_remove_expired today actions)) (map fst actions)
      = filter (\<lambda>name. name \<in> fst ` set (spec_remove_expired today actions)) (map fst actions)"
    using n by (intro filter_cong) auto
  show ?case
    unfolding a spec_remove_expired_Cons using Cons.IH [OF d] n' cong
    by auto
qed

lemma subseq_keys_spec_remove_expired:
  "subseq (map fst (spec_remove_expired today actions)) (map fst actions)"
proof (induction actions)
  case Nil
  show ?case by (simp add: spec_remove_expired_def)
next
  case (Cons a actions)
  obtain n g where a: "a = (n, g)" by (cases a)
  show ?case
    unfolding a spec_remove_expired_Cons using Cons.IH by auto
qed

lemma wf_spec_remove_expired:
  assumes "wf_actions actions"
  shows "wf_actions (spec_remove_expired today actions)"
proof -
  have "distinct (map fst (spec_remove_expired today actions))"
  proof -
    from assms have d: "distinct (map fst actions)" by (simp add: wf_actions_def)
    show ?thesis
      unfolding keys_spec_remove_expired [OF d] using d by (rule distinct_filter)
  qed
  moreover have "wf_refs refs'" if "(name, refs') \<in> set (spec_remove_expired today actions)" for name refs'
  proof -
    from that obtain refs where r: "(name, refs) \<in> set actions"
      "refs' = filter (\<lambda>(ref, details). \<not> expired today details) refs"
      by (auto simp: spec_remove_expired_iff)
    from assms r(1) have "distinct (map fst refs)"
      by (auto simp: wf_actions_def wf_refs_def list_all_iff)
    then show ?thesis by (simp add: r(2) wf_refs_def distinct_map_filter)
  qed
  ultimately show ?thesis by (auto simp: wf_actions_def list_all_iff)
qed

lemma spec_remove_expired_idem:
  "spec_remove_expired today (spec_remove_expired today actions) = spec_remove_expired today actions"
proof (induction actions)
  case Nil
  show ?case by (simp add: spec_remove_expired_def)
next
  case (Cons a actions)
  obtain n g where a: "a = (n, g)" by (cases a)
  have app: "spec_remove_expired today (xs @ ys) = spec_remove_expired today xs @ spec_remove_expired today ys"
    for xs ys by (simp add: spec_remove_expired_def)
  show ?case
    unfolding a spec_remove_expired_Cons [of today n g actions] app using Cons.IH
    by (auto simp: spec_remove_expired_Cons spec_remove_expired_def)
qed

lemma entries_functional:
  assumes "wf_actions actions" "(name, ref, d) \<in> set (entries actions)" "(name, ref, d') \<in> set (entries actions)"
  shows "d = d'"
proof -
  from assms(2,3) obtain g g' where g: "(name, g) \<in> set actions" "(ref, d) \<in> set g"
    and g': "(name, g') \<in> set actions" "(ref, d') \<in> set g'"
    by (auto simp: entries_iff)
  from assms(1) g(1) g'(1) have "g = g'"
    by (auto simp: wf_actions_def dest: eq_key_imp_eq_value)
  moreover from assms(1) g(1) have "distinct (map fst g)"
    by (auto simp: wf_actions_def wf_refs_def list_all_iff)
  ultimately show ?thesis using g(2) g'(2) by (auto dest: eq_key_imp_eq_value)
qed

lemma has_ref_entries:
  "has_ref actions name ref \<Longrightarrow> \<exists>details. (name, ref, details) \<in> set (entries actions)"
  by (fastforce simp: has_ref_def entries_iff split: option.splits dest: map_of_SomeD)

lemma refs_to_remove_iff:
  "(name, ref) \<in> set (refs_to_remove today actions) \<longleftrightarrow>
     (\<exists>details. (name, ref, details) \<in> set (entries actions) \<and> expired today details)"
proof (induction actions)
  case Nil
  show ?case by (simp add: refs_to_remove_def entries_def)
next
  case (Cons a actions)
  obtain n g where a: "a = (n, g)" by (cases a)
  show ?case
    unfolding a refs_to_remove_Cons entries_Cons using Cons.IH by (auto simp: image_iff)
qed

subsection \<open>What the pruner removes\<close>

text \<open>
  Claim C2. For every (well-formed) store, \<open>remove_expired_refs\<close> returns without error
  and deletes exactly the (name, reference) pairs whose \<open>expires_at\<close> is today or earlier
  and whose \<open>keep\<close> is not true: the entries of the result are the other entries, in
  their order. A name is deleted when its group has become empty, so an empty group in
  the result was empty before. An entry that expires today without \<open>keep\<close> is gone, an
  entry that expires today with \<open>keep = True\<close> stays, and an entry that expires tomorrow
  stays.
\<close>

theorem remove_expired_refs_removes_exactly:
  assumes "wf_actions actions"
  shows "\<exists>actions'.
      remove_expired_refs today actions = Inr actions'
    \<and> entries actions' =
        filter (\<lambda>(name, ref, details). \<not> (expires_at details \<le> today \<and> keep details \<noteq> Some True))
          (entries actions)
    \<and> (\<forall>(name, refs) \<in> set actions'. refs = [] \<longrightarrow> (name, []) \<in> set actions)
    \<and> (\<forall>name ref details. (name, ref, details) \<in> set (entries actions) \<longrightarrow>
          (expires_at details = today \<and> keep details \<noteq> Some True
             \<longrightarrow> \<not> has_ref actions' name ref)
        \<and> (expires_at details = today \<and> keep details = Some True
             \<longrightarrow> (name, ref, details) \<in> set (entries actions'))
        \<and> (expires_at details = today + 1
             \<longrightarrow> (name, ref, details) \<in> set (entries actions')))"
proof -
  let ?actions' = "spec_remove_expired today actions"
  have run: "remove_expired_refs today actions = Inr ?actions'"
    using assms by (rule remove_expired_refs_refines)
  have ent: "entries ?actions' =
        filter (\<lambda>(name, ref, details). \<not> (expires_at details \<le> today \<and> keep details \<noteq> Some True))
          (entries actions)"
    by (simp add: entries_spec_remove_expired expired_def)
  have emptied: "\<forall>(name, refs) \<in> set ?actions'. refs = [] \<longrightarrow> (name, []) \<in> set actions"
    by (auto simp: spec_remove_expired_iff)
  have bounds: "(expires_at details = today \<and> keep details \<noteq> Some True
             \<longrightarrow> \<not> has_ref ?actions' name ref)
        \<and> (expires_at details = today \<and> keep details = Some True
             \<longrightarrow> (name, ref, details) \<in> set (entries ?actions'))
        \<and> (expires_at details = today + 1
             \<longrightarrow> (name, ref, details) \<in> set (entries ?actions'))"
    if mem: "(name, ref, details) \<in> set (entries actions)" for name ref details
  proof (intro conjI impI)
    assume gone: "expires_at details = today \<and> keep details \<noteq> Some True"
    show "\<not> has_ref ?actions' name ref"
    proof
      assume "has_ref ?actions' name ref"
      then obtain d' where d': "(name, ref, d') \<in> set (entries ?actions')"
        by (blast dest: has_ref_entries)
      then have old: "(name, ref, d') \<in> set (entries actions)" and live: "\<not> expired today d'"
        by (auto simp: entries_spec_remove_expired)
      from entries_functional [OF assms mem old] have "d' = details" by simp
      with live gone show False by (simp add: expired_def)
    qed
  next
    assume "expires_at details = today \<and> keep details = Some True"
    with mem show "(name, ref, details) \<in> set (entries ?actions')"
      by (simp add: entries_spec_remove_expired expired_def)
  next
    assume "expires_at details = today + 1"
    with mem show "(name, ref, details) \<in> set (entries ?actions')"
      by (simp add: entries_spec_remove_expired expired_def)
  qed
  from run ent emptied bounds show ?thesis by blast
qed

theorem remove_expired_refs_removes_exactly_witness:
  "wf_actions
       [(''o/r'', [(''v1'', \<lparr>expires_at = 739000, keep = None\<rparr>),
                   (''v2'', \<lparr>expires_at = 739000, keep = Some True\<rparr>),
                   (''v3'', \<lparr>expires_at = 739001, keep = None\<rparr>)]),
        (''p/q'', [(''abc'', \<lparr>expires_at = 738000, keep = Some False\<rparr>)]),
        (''s/t'', [(''v7'', \<lparr>expires_at = 739500, keep = Some False\<rparr>)])]
   \<and> remove_expired_refs 739000
       [(''o/r'', [(''v1'', \<lparr>expires_at = 739000, keep = None\<rparr>),
                   (''v2'', \<lparr>expires_at = 739000, keep = Some True\<rparr>),
                   (''v3'', \<lparr>expires_at = 739001, keep = None\<rparr>)]),
        (''p/q'', [(''abc'', \<lparr>expires_at = 738000, keep = Some False\<rparr>)]),
        (''s/t'', [(''v7'', \<lparr>expires_at = 739500, keep = Some False\<rparr>)])] =
     Inr [(''o/r'', [(''v2'', \<lparr>expires_at = 739000, keep = Some True\<rparr>),
                   (''v3'', \<lparr>expires_at = 739001, keep = None\<rparr>)]),
        (''s/t'', [(''v7'', \<lparr>expires_at = 739500, keep = Some False\<rparr>)])]
   \<and> entries
       [(''o/r'', [(''v2'', \<lparr>expires_at = 739000, keep = Some True\<rparr>),
                   (''v3'', \<lparr>expires_at = 739001, keep = None\<rparr>)]),
        (''s/t'', [(''v7'', \<lparr>expires_at = 739500, keep = Some False\<rparr>)])] =
     [(''o/r'', ''v2'', \<lparr>expires_at = 739000, keep = Some True\<rparr>),
      (''o/r'', ''v3'', \<lparr>expires_at = 739001, keep = None\<rparr>),
      (''s/t'', ''v7'', \<lparr>expires_at = 739500, keep = Some False\<rparr>)]"
proof -
  let ?X = "[(''o/r'', [(''v1'', \<lparr>expires_at = 739000, keep = None\<rparr>),
                   (''v2'', \<lparr>expires_at = 739000, keep = Some True\<rparr>),
                   (''v3'', \<lparr>expires_at = 739001, keep = None\<rparr>)]),
        (''p/q'', [(''abc'', \<lparr>expires_at = 738000, keep = Some False\<rparr>)]),
        (''s/t'', [(''v7'', \<lparr>expires_at = 739500, keep = Some False\<rparr>)])]"
  let ?Y = "[(''o/r'', [(''v2'', \<lparr>expires_at = 739000, keep = Some True\<rparr>),
                   (''v3'', \<lparr>expires_at = 739001, keep = None\<rparr>)]),
        (''s/t'', [(''v7'', \<lparr>expires_at = 739500, keep = Some False\<rparr>)])]"
  have wf: "wf_actions ?X"
    by (simp add: wf_actions_def wf_refs_def)
  have run: "remove_expired_refs 739000 ?X = Inr ?Y"
    by (simp add: remove_expired_refs_def refs_to_remove_def)
  from remove_expired_refs_removes_exactly [OF wf, of 739000] run
  have "entries ?Y =
        filter (\<lambda>(name, ref, details). \<not> (expires_at details \<le> 739000 \<and> keep details \<noteq> Some True))
          (entries ?X)"
    by auto
  then have "entries ?Y =
     [(''o/r'', ''v2'', \<lparr>expires_at = 739000, keep = Some True\<rparr>),
      (''o/r'', ''v3'', \<lparr>expires_at = 739001, keep = None\<rparr>),
      (''s/t'', ''v7'', \<lparr>expires_at = 739500, keep = Some False\<rparr>)]"
    by (simp add: entries_def)
  with wf run show ?thesis by blast
qed

subsection \<open>Pruning twice\<close>

text \<open>
  Claim C7. For every (well-formed) store, applying \<open>remove_expired_refs\<close> to the result
  of \<open>remove_expired_refs\<close>, with the same value of today, returns that result again.
\<close>

theorem remove_expired_refs_idempotent:
  assumes "wf_actions actions"
  shows "\<exists>actions'. remove_expired_refs today actions = Inr actions'
           \<and> remove_expired_refs today actions' = Inr actions'"
proof -
  let ?actions' = "spec_remove_expired today actions"
  have "remove_expired_refs today actions = Inr ?actions'"
    using assms by (rule remove_expired_refs_refines)
  moreover have "remove_expired_refs today ?actions' = Inr ?actions'"
    using remove_expired_refs_refines [OF wf_spec_remove_expired [OF assms], of today today]
    by (simp add: spec_remove_expired_idem)
  ultimately show ?thesis by blast
qed

theorem remove_expired_refs_idempotent_witness:
  "wf_actions
       [(''o/r'', [(''v1'', \<lparr>expires_at = 739000, keep = None\<rparr>),
                   (''v2'', \<lparr>expires_at = 739000, keep = Some True\<rparr>),
                   (''v3'', \<lparr>expires_at = 739001, keep = None\<rparr>)]),
        (''p/q'', [(''abc'', \<lparr>expires_at = 738000, keep = Some False\<rparr>)]),
        (''s/t'', [(''v7'', \<lparr>expires_at = 739500, keep = Some False\<rparr>)])]
   \<and> remove_expired_refs 739000
       [(''o/r'', [(''v1'', \<lparr>expires_at = 739000, keep = None\<rparr>),
                   (''v2'', \<lparr>expires_at = 739000, keep = Some True\<rparr>),
                   (''v3'', \<lparr>expires_at = 739001, keep = None\<rparr>)]),
        (''p/q'', [(''abc'', \<lparr>expires_at = 738000, keep = Some False\<rparr>)]),
        (''s/t'', [(''v7'', \<lparr>expires_at = 739500, keep = Some False\<rparr>)])] =
     Inr [(''o/r'', [(''v2'', \<lparr>expires_at = 739000, keep = Some True\<rparr>),
                   (''v3'', \<lparr>expires_at = 739001, keep = None\<rparr>)]),
        (''s/t'', [(''v7'', \<lparr>expires_at = 739500, keep = Some False\<rparr>)])]
   \<and> remove_expired_refs 739000
       [(''o/r'', [(''v2'', \<lparr>expires_at = 739000, keep = Some True\<rparr>),
                   (''v3'', \<lparr>expires_at = 739001, keep = None\<rparr>)]),
        (''s/t'', [(''v7'', \<lparr>expires_at = 739500, keep = Some False\<rparr>)])] =
     Inr [(''o/r'', [(''v2'', \<lparr>expires_at = 739000, keep = Some True\<rparr>),
                   (''v3'', \<lparr>expires_at = 739001, keep = None\<rparr>)]),
        (''s/t'', [(''v7'', \<lparr>expires_at = 739500, keep = Some False\<rparr>)])]"
proof -
  let ?X = "[(''o/r'', [(''v1'', \<lparr>expires_at = 739000, keep = None\<rparr>),
                   (''v2'', \<lparr>expires_at = 739000, keep = Some True\<rparr>),
                   (''v3'', \<lparr>expires_at = 739001, keep = None\<rparr>)]),
        (''p/q'', [(''abc'', \<lparr>expires_at = 738000, keep = Some False\<rparr>)]),
        (''s/t'', [(''v7'', \<lparr>expires_at = 739500, keep = Some False\<rparr>)])]"
  let ?Y = "[(''o/r'', [(''v2'', \<lparr>expires_at = 739000, keep = Some True\<rparr>),
                   (''v3'', \<lparr>expires_at = 739001, keep = None\<rparr>)]),
        (''s/t'', [(''v7'', \<lparr>expires_at = 739500, keep = Some False\<rparr>)])]"
  have wf: "wf_actions ?X"
    by (simp add: wf_actions_def wf_refs_def)
  have run: "remove_expired_refs 739000 ?X = Inr ?Y"
    by (simp add: remove_expired_refs_def refs_to_remove_def)
  from remove_expired_refs_idempotent [OF wf, of 739000] run
  have "remove_expired_refs 739000 ?Y = Inr ?Y"
    by auto
  with wf run show ?thesis by blast
qed

subsection \<open>What the pruner leaves alone\<close>

text \<open>
  Claim C10. \<open>remove_expired_refs\<close> does not modify a surviving entry: every (name,
  reference) pair that was not collected for deletion is in the result with the same
  \<open>expires_at\<close> and \<open>keep\<close>, the surviving entries and the surviving names are
  subsequences of the original ones (their relative order is kept), and every group of the
  result is a subsequence of the group the name had before.
\<close>

theorem remove_expired_refs_frame:
  assumes "wf_actions actions"
  shows "\<exists>actions'.
      remove_expired_refs today actions = Inr actions'
    \<and> (\<forall>name ref details.
          (name, ref, details) \<in> set (entries actions)
          \<and> (name, ref) \<notin> set (refs_to_remove today actions)
          \<longrightarrow> (name, ref, details) \<in> set (entries actions'))
    \<and> subseq (entries actions') (entries actions)
    \<and> subseq (map fst actions') (map fst actions)
    \<and> (\<forall>(name, refs') \<in> set actions'.
          \<exists>refs. map_of actions name = Some refs \<and> subseq refs' refs)"
proof -
  let ?actions' = "spec_remove_expired today actions"
  have run: "remove_expired_refs today actions = Inr ?actions'"
    using assms by (rule remove_expired_refs_refines)
  have keep_vals: "(name, ref, details) \<in> set (entries ?actions')"
    if "(name, ref, details) \<in> set (entries actions) \<and> (name, ref) \<notin> set (refs_to_remove today actions)"
    for name ref details
    using that by (auto simp: refs_to_remove_iff entries_spec_remove_expired)
  have order: "subseq (entries ?actions') (entries actions)"
    by (simp add: entries_spec_remove_expired)
  have names: "subseq (map fst ?actions') (map fst actions)"
    by (rule subseq_keys_spec_remove_expired)
  have groups: "\<exists>refs. map_of actions name = Some refs \<and> subseq refs' refs"
    if "(name, refs') \<in> set ?actions'" for name refs'
  proof -
    from that obtain refs where r: "(name, refs) \<in> set actions"
      "refs' = filter (\<lambda>(ref, details). \<not> expired today details) refs"
      by (auto simp: spec_remove_expired_iff)
    from assms r(1) have "map_of actions name = Some refs"
      by (simp add: wf_actions_def)
    with r(2) show ?thesis by simp
  qed
  from run keep_vals order names groups show ?thesis by blast
qed

theorem remove_expired_refs_frame_witness:
  "wf_actions
       [(''o/r'', [(''v1'', \<lparr>expires_at = 739000, keep = None\<rparr>),
                   (''v2'', \<lparr>expires_at = 739000, keep = Some True\<rparr>),
                   (''v3'', \<lparr>expires_at = 739001, keep = None\<rparr>)]),
        (''p/q'', [(''abc'', \<lparr>expires_at = 738000, keep = Some False\<rparr>)]),
        (''s/t'', [(''v7'', \<lparr>expires_at = 739500, keep = Some False\<rparr>)])]
   \<and> remove_expired_refs 739000
       [(''o/r'', [(''v1'', \<lparr>expires_at = 739000, keep = None\<rparr>),
                   (''v2'', \<lparr>expires_at = 739000, keep = Some True\<rparr>),
                   (''v3'', \<lparr>expires_at = 739001, keep = None\<rparr>)]),
        (''p/q'', [(''abc'', \<lparr>expires_at = 738000, keep = Some False\<rparr>)]),
        (''s/t'', [(''v7'', \<lparr>expires_at = 739500, keep = Some False\<rparr>)])] =
     Inr [(''o/r'', [(''v2'', \<lparr>expires_at = 739000, keep = Some True\<rparr>),
                   (''v3'', \<lparr>expires_at = 739001, keep = None\<rparr>)]),
        (''s/t'', [(''v7'', \<lparr>expires_at = 739500, keep = Some False\<rparr>)])]
   \<and> subseq [''o/r'', ''s/t''] [''o/r'', ''p/q'', ''s/t'']
   \<and> (''o/r'', ''v2'', \<lparr>expires_at = 739000, keep = Some True\<rparr>) \<in> set (entries
       [(''o/r'', [(''v2'', \<lparr>expires_at = 739000, keep = Some True\<rparr>),
                   (''v3'', \<lparr>expires_at = 739001, keep = None\<rparr>)]),
        (''s/t'', [(''v7'', \<lparr>expires_at = 739500, keep = Some False\<rparr>)])])"
proof -
  let ?X = "[(''o/r'', [(''v1'', \<lparr>expires_at = 739000, keep = None\<rparr>),
                   (''v2'', \<lparr>expires_at = 739000, keep = Some True\<rparr>),
                   (''v3'', \<lparr>expires_at = 739001, keep = None\<rparr>)]),
        (''p/q'', [(''abc'', \<lparr>expires_at = 738000, keep = Some False\<rparr>)]),
        (''s/t'', [(''v7'', \<lparr>expires_at = 739500, keep = Some False\<rparr>)])]"
  let ?Y = "[(''o/r'', [(''v2'', \<lparr>expires_at = 739000, keep = Some True\<rparr>),
                   (''v3'', \<lparr>expires_at = 739001, keep = None\<rparr>)]),
        (''s/t'', [(''v7'', \<lparr>expires_at = 739500, keep = Some False\<rparr>)])]"
  have wf: "wf_actions ?X"
    by (simp add: wf_actions_def wf_refs_def)
  have run: "remove_expired_refs 739000 ?X = Inr ?Y"
    by (simp add: remove_expired_refs_def refs_to_remove_def)
  from remove_expired_refs_frame [OF wf, of 739000] run
  have fr: "(\<forall>name ref details.
          (name, ref, details) \<in> set (entries ?X) \<and> (name, ref) \<notin> set (refs_to_remove 739000 ?X)
          \<longrightarrow> (name, ref, details) \<in> set (entries ?Y))"
    and names: "subseq (map fst ?Y) (map fst ?X)"
    by auto
  have "(''o/r'', ''v2'', \<lparr>expires_at = 739000, keep = Some True\<rparr>) \<in> set (entries ?X)
      \<and> (''o/r'', ''v2'') \<notin> set (refs_to_remove 739000 ?X)"
    by (simp add: entries_def refs_to_remove_def)
  with fr have "(''o/r'', ''v2'', \<lparr>expires_at = 739000, keep = Some True\<rparr>) \<in> set (entries ?Y)"
    by blast
  moreover from names have "subseq [''o/r'', ''s/t''] [''o/r'', ''p/q'', ''s/t'']"
    by simp
  ultimately show ?thesis using wf run by blast
qed

end
